theory Spec2Isabelle
  imports Main
begin

section \<open>Request values\<close>

text \<open>
  The body of a request is parsed JSON. The two fields the route reads, \<open>path\<close> and
  \<open>fileLimit\<close>, may hold any JSON value; \<open>JUndefined\<close> stands for a field that is
  absent from the body. \<open>JInt\<close> is an integer-valued JSON number (of magnitude below
  \<open>10^21\<close>, which JavaScript prints in plain decimal notation).
\<close>

datatype json = JUndefined | JNull | JBool bool | JInt int | JStr string

subsection \<open>\<open>ToString\<close> and \<open>parseInt\<close>\<close>

definition digit_char :: "nat \<Rightarrow> char" where
  "digit_char d = char_of (48 + d)"

fun digits_of :: "nat \<Rightarrow> string" where
  "digits_of n = (if n < 10 then [digit_char n] else digits_of (n div 10) @ [digit_char (n mod 10)])"

declare digits_of.simps [simp del]

text \<open>
  \<open>String(v)\<close>. An integer-valued number below \<open>10^21\<close> in magnitude prints as its
  decimal digits; from \<open>10^21\<close> on JavaScript prints an exponent, which is not modelled.
\<close>

fun ToString :: "json \<Rightarrow> string" where
  "ToString JUndefined = ''undefined''"
| "ToString JNull = ''null''"
| "ToString (JBool b) = (if b then ''true'' else ''false'')"
| "ToString (JInt n) = (if n < 0 then CHR ''-'' # digits_of (nat (- n)) else digits_of (nat n))"
| "ToString (JStr s) = s"

text \<open>
  The white space \<open>parseInt\<close> skips, among the code units a \<open>char\<close> can hold: tab,
  line feed, vertical tab, form feed, carriage return, space and no-break space.
\<close>

definition is_ws :: "char \<Rightarrow> bool" where
  "is_ws c = (of_char c \<in> {9, 10, 11, 12, 13, 32, 160 :: nat})"

text \<open>The value of a character as a digit of the given radix, if it is one.\<close>

definition digit_val :: "nat \<Rightarrow> char \<Rightarrow> nat option" where
  "digit_val R c =
     (let k = (of_char c :: nat);
          v = (if 48 \<le> k \<and> k \<le> 57 then Some (k - 48)
               else if 97 \<le> k \<and> k \<le> 122 then Some (k - 87)
               else if 65 \<le> k \<and> k \<le> 90 then Some (k - 55)
               else None)
      in case v of None \<Rightarrow> None | Some d \<Rightarrow> if d < R then Some d else None)"

text \<open>
  \<open>parseInt(string)\<close> without a radix argument: leading white space is skipped, a sign is
  read, a \<open>0x\<close>/\<open>0X\<close> prefix selects radix 16, and the longest prefix of digits is the
  value. \<open>None\<close> is \<open>NaN\<close> (no digit at all).
\<close>

definition parseInt :: "string \<Rightarrow> int option" where
  "parseInt inputString =
     (let S = dropWhile is_ws inputString;
          neg = (S \<noteq> [] \<and> hd S = CHR ''-'');
          S = (if S \<noteq> [] \<and> (hd S = CHR ''+'' \<or> hd S = CHR ''-'') then tl S else S);
          hex = (take 2 S = ''0x'' \<or> take 2 S = ''0X'');
          R = (if hex then 16 else 10);
          S = (if hex then drop 2 S else S);
          Z = takeWhile (\<lambda>c. digit_val R c \<noteq> None) S;
          v = foldl (\<lambda>a c. a * R + the (digit_val R c)) 0 Z
      in if Z = [] then None else Some (if neg then - int v else int v))"

subsection \<open>The applied limit\<close>

text \<open>
  \<^verbatim>\<open>const { path: requestedPath, fileLimit = 20 } = await request.json();\<close>
  The default of the destructuring pattern replaces an absent field only.
\<close>

definition fileLimit_default :: "json \<Rightarrow> json" where
  "fileLimit_default v = (case v of JUndefined \<Rightarrow> JInt 20 | _ \<Rightarrow> v)"

text \<open>
  \<^verbatim>\<open>parseInt(fileLimit) || 20\<close>: the right operand replaces a falsy left operand,
  which for a number is \<open>NaN\<close> or zero.
\<close>

definition or_default :: "int option \<Rightarrow> int \<Rightarrow> int" where
  "or_default x d = (case x of None \<Rightarrow> d | Some n \<Rightarrow> if n = 0 then d else n)"

text \<open>\<^verbatim>\<open>const limit = Math.max(1, Math.min(100, parseInt(fileLimit) || 20));\<close>\<close>

definition limit :: "json \<Rightarrow> int" where
  "limit fileLimit = max 1 (min 100 (or_default (parseInt (ToString (fileLimit_default fileLimit))) 20))"

section \<open>The file system\<close>

text \<open>
  What a scan can observe of the file system below a path: a non-directory entry (a plain
  file, a link, a socket: everything whose \<open>Dirent.isDirectory()\<close> is false), a directory
  with the entries \<open>fs.readdir\<close> returns for it, in the order it returns them, or a
  directory whose listing fails (permissions, removed meanwhile). Directories form a
  finite tree, which makes the recursive descent of the scanner well founded.
\<close>

datatype fsobject = FsFile | FsDir "(string \<times> fsobject) list" | FsUnreadable

datatype error = ENOENT | ENOTDIR | EACCES | TypeError

fun readdir :: "fsobject \<Rightarrow> error + (string \<times> fsobject) list" where
  "readdir (FsDir items) = Inr items"
| "readdir FsUnreadable = Inl EACCES"
| "readdir FsFile = Inl ENOTDIR"

fun isDirectory :: "fsobject \<Rightarrow> bool" where
  "isDirectory FsFile = False"
| "isDirectory (FsDir items) = True"
| "isDirectory FsUnreadable = True"

subsection \<open>Paths\<close>

datatype platform = Posix | Win32

fun path_sep :: "platform \<Rightarrow> char" where
  "path_sep Posix = CHR ''/''"
| "path_sep Win32 = CHR 0x5C"

text \<open>
  \<open>path.join(a, b)\<close> of Node: zero-length arguments are skipped, the others are joined
  with the separator of the platform, and the result is normalised. The scanner joins a
  prefix that is itself such a join with an entry name returned by \<open>readdir\<close>: a single
  segment, different from \<open>.\<close> and \<open>..\<close> and free of separators, on which normalisation
  changes nothing.
\<close>

definition path_join :: "platform \<Rightarrow> string \<Rightarrow> string \<Rightarrow> string" where
  "path_join pf a b =
     (if a = [] \<and> b = [] then ''.''
      else if a = [] then b
      else if b = [] then a
      else a @ path_sep pf # b)"

definition startsWith :: "string \<Rightarrow> string \<Rightarrow> bool" where
  "startsWith s p = (take (length p) s = p)"

section \<open>The result tree\<close>

datatype ftype = File | Folder

text \<open>
  \<^verbatim>\<open>interface FileNode { name; path; type; children?; truncated?; totalCount? }\<close>
  An optional field that is absent (\<open>undefined\<close>, dropped from the JSON response) is
  \<open>None\<close>.
\<close>

datatype FileNode =
  FileNode (node_name: string) (node_path: string) (node_type: ftype)
    (node_children: "FileNode list option") (node_truncated: "bool option")
    (node_totalCount: "nat option")

section \<open>scanDirectory\<close>

text \<open>
  An element of \<open>allItems\<close>. The source keeps name, path and type; it reaches the
  directory behind a folder item through \<open>path.join(dirPath, item.name)\<close>, which the
  model keeps as \<open>item_target\<close>, the object found there.
\<close>

record item =
  item_name :: string
  item_path :: string
  item_type :: ftype
  item_target :: fsobject

text \<open>First pass: collect all items and filter.\<close>

fun collect :: "platform \<Rightarrow> string \<Rightarrow> (string \<times> fsobject) list \<Rightarrow> item list" where
  "collect pf basePath [] = []"
| "collect pf basePath ((name, obj) # items) =
     (let relativePath = (if basePath \<noteq> [] then path_join pf basePath name else name)
      in if startsWith name ''.'' then collect pf basePath items
         else if name = ''node_modules'' then collect pf basePath items
         else if name = ''.git'' then collect pf basePath items
         else (let itemType = (if isDirectory obj then Folder else File)
               in \<lparr>item_name = name, item_path = relativePath, item_type = itemType,
                    item_target = obj\<rparr> # collect pf basePath items))"

text \<open>
  The comparator passed to \<open>allItems.sort\<close>. \<open>localeCompare\<close> depends on the locale of
  the host and is a parameter, \<open>lc\<close>.
\<close>

definition compareItems :: "(string \<Rightarrow> string \<Rightarrow> int) \<Rightarrow> item \<Rightarrow> item \<Rightarrow> int" where
  "compareItems lc a b =
     (if item_type a = Folder \<and> item_type b = File then - 1
      else if item_type a = File \<and> item_type b = Folder then 1
      else lc (item_name a) (item_name b))"

text \<open>
  \<open>Array.prototype.sort\<close> is stable and, for a consistent comparator, returns the
  elements in ascending order: a stable insertion sort.
\<close>

fun insert_item :: "('a \<Rightarrow> 'a \<Rightarrow> int) \<Rightarrow> 'a \<Rightarrow> 'a list \<Rightarrow> 'a list" where
  "insert_item cmp x [] = [x]"
| "insert_item cmp x (y # ys) = (if cmp x y \<le> 0 then x # y # ys else y # insert_item cmp x ys)"

definition sort_items :: "('a \<Rightarrow> 'a \<Rightarrow> int) \<Rightarrow> 'a list \<Rightarrow> 'a list" where
  "sort_items cmp xs = foldr (insert_item cmp) xs []"

text \<open>The truncated indicator pushed in place of the last node.\<close>

definition sentinel :: "string \<Rightarrow> nat \<Rightarrow> FileNode" where
  "sentinel basePath n = FileNode ''...'' (basePath @ ''...'') Folder None (Some True) (Some n)"

text \<open>
  The node pushed for one item. \<open>scan\<close> is the recursive call
  \<open>scanDirectory(fullPath, item.path, fileLimit)\<close>; \<open>Inl\<close> is an exception thrown by it,
  which the \<open>catch\<close> around the call turns into a folder without children.
\<close>

definition emit :: "(fsobject \<Rightarrow> string \<Rightarrow> error + FileNode list) \<Rightarrow> item \<Rightarrow> FileNode" where
  "emit scan it =
     (if item_type it = Folder then
        (case scan (item_target it) (item_path it) of
           Inr children \<Rightarrow>
             FileNode (item_name it) (item_path it) Folder
               (if length children > 0 then Some children else None) None None
         | Inl e \<Rightarrow> FileNode (item_name it) (item_path it) Folder None None None)
      else FileNode (item_name it) (item_path it) File None None None)"

text \<open>
  The second loop, from index \<open>i\<close> on: \<open>its\<close> are \<open>allItems[i..]\<close>, \<open>n\<close> is
  \<open>allItems.length\<close>, and \<open>i < allItems.length - 1\<close> says that items remain after the
  current one.
\<close>

fun process_items ::
  "(fsobject \<Rightarrow> string \<Rightarrow> error + FileNode list) \<Rightarrow> string \<Rightarrow> int \<Rightarrow> nat \<Rightarrow>
   item list \<Rightarrow> FileNode list \<Rightarrow> FileNode list" where
  "process_items scan basePath fileLimit n [] nodes = nodes"
| "process_items scan basePath fileLimit n (it # its) nodes =
     (let nodes = nodes @ [emit scan it]
      in if int (length nodes) \<ge> fileLimit \<and> its \<noteq> []
         then butlast nodes @ [sentinel basePath n]
         else process_items scan basePath fileLimit n its nodes)"

lemma process_items_cong [fundef_cong]:
  assumes "its = its'" "basePath = basePath'" "fileLimit = fileLimit'" "n = n'"
    "nodes = nodes'"
    "\<And>it. it \<in> set its' \<Longrightarrow>
       scan (item_target it) (item_path it) = scan' (item_target it) (item_path it)"
  shows "process_items scan basePath fileLimit n its nodes =
         process_items scan' basePath' fileLimit' n' its' nodes'"
  unfolding assms(1-5) using assms(6)
  by (induction its' arbitrary: nodes') (simp_all add: emit_def Let_def)

lemma set_insert_item: "set (insert_item cmp x xs) = insert x (set xs)"
  by (induction xs) auto

lemma set_sort_items: "set (sort_items cmp xs) = set xs"
  by (induction xs) (simp_all add: sort_items_def set_insert_item)

lemma collect_target:
  "it \<in> set (collect pf basePath items) \<Longrightarrow> (item_name it, item_target it) \<in> set items"
  by (induction items) (auto simp: Let_def split: if_splits)

lemma size_dir_entry: "(name, obj) \<in> set items \<Longrightarrow> size obj < size (FsDir items)"
  by (induction items) auto

text \<open>
  \<open>scanDirectory(dirPath, basePath, fileLimit)\<close>, where \<open>dir\<close> is the object at
  \<open>dirPath\<close>. The inner \<open>case\<close> is the \<open>try\<close> block, which fails when \<open>readdir\<close>
  does; the outer one is its \<open>catch\<close>, which returns the empty list.
\<close>

function scanDirectory ::
  "(string \<Rightarrow> string \<Rightarrow> int) \<Rightarrow> platform \<Rightarrow> fsobject \<Rightarrow> string \<Rightarrow> int \<Rightarrow> error + FileNode list" where
  "scanDirectory lc pf dir basePath fileLimit =
     (case (case readdir dir of
              Inl e \<Rightarrow> Inl e
            | Inr items \<Rightarrow>
                (let allItems = sort_items (compareItems lc) (collect pf basePath items)
                 in Inr (process_items (\<lambda>d b. scanDirectory lc pf d b fileLimit)
                           basePath fileLimit (length allItems) allItems []))) of
        Inr nodes \<Rightarrow> Inr nodes
      | Inl e \<Rightarrow> Inr [])"
  by pat_completeness auto
termination
proof (relation "measure (\<lambda>(lc, pf, dir, basePath, fileLimit). size dir)")
  show "wf (measure (\<lambda>(lc, pf, dir, basePath, fileLimit). size dir))" by simp
next
  fix lc pf dir basePath fileLimit items allItems it
  assume "readdir dir = Inr items"
    and "allItems = sort_items (compareItems lc) (collect pf basePath items)"
    and "it \<in> set allItems"
  then have "dir = FsDir items" "(item_name it, item_target it) \<in> set items"
    by (cases dir; simp add: set_sort_items collect_target)+
  then show "((lc, pf, item_target it, item_path it, fileLimit), (lc, pf, dir, basePath, fileLimit))
      \<in> measure (\<lambda>(lc, pf, dir, basePath, fileLimit). size dir)"
    using size_dir_entry by simp
qed

declare scanDirectory.simps [simp del]

text \<open>\<open>countNodes\<close>: every node and, where \<open>children\<close> is present, the nodes below it.\<close>

fun countNodes :: "FileNode list \<Rightarrow> nat" and countNode :: "FileNode \<Rightarrow> nat" where
  "countNodes [] = 0"
| "countNodes (node # nodes) = countNode node + countNodes nodes"
| "countNode (FileNode name path type ch tr tc) =
     1 + (case ch of None \<Rightarrow> 0 | Some cs \<Rightarrow> countNodes cs)"

section \<open>The route handler\<close>

text \<open>
  What the handler reads from its environment: \<open>process.platform\<close>, \<open>process.cwd()\<close>,
  \<open>path.resolve\<close> (which resolves against the working directory) and
  \<open>path.isAbsolute\<close>, the locale's \<open>localeCompare\<close>, and the file system:
  \<open>stat p\<close> is the object \<open>fs.stat\<close> finds at \<open>p\<close>, \<open>None\<close> when \<open>fs.stat\<close> throws.
\<close>

record env =
  platform :: platform
  cwd :: string
  resolve :: "string \<Rightarrow> string"
  isAbsolute :: "string \<Rightarrow> bool"
  localeCompare :: "string \<Rightarrow> string \<Rightarrow> int"
  stat :: "string \<Rightarrow> fsobject option"









definition toUpperCase :: "char \<Rightarrow> char" where
  "toUpperCase c = (let k = (of_char c :: nat) in if 97 \<le> k \<and> k \<le> 122 then char_of (k - 32) else c)"







section \<open>Vocabulary of the properties\<close>

text \<open>The names the first pass of \<open>scanDirectory\<close> skips, and the entries it keeps.\<close>

definition skipped :: "string \<Rightarrow> bool" where
  "skipped name = (startsWith name ''.'' \<or> name = ''node_modules'' \<or> name = ''.git'')"

definition filtered :: "(string \<times> fsobject) list \<Rightarrow> (string \<times> fsobject) list" where
  "filtered items = filter (\<lambda>(name, obj). \<not> skipped name) items"

text \<open>A truncation sentinel is a node that carries the \<open>truncated\<close> field.\<close>

definition is_sentinel :: "FileNode \<Rightarrow> bool" where
  "is_sentinel node = (node_truncated node \<noteq> None)"

text \<open>
  The sibling sequences of a result tree: the list itself and the \<open>children\<close> of every
  node in it, at any depth, each with the chain of nodes that leads to it from the top
  (empty for the top level, the parent last).
\<close>

fun levels :: "FileNode list \<Rightarrow> FileNode list \<Rightarrow> (FileNode list \<times> FileNode list) list"
  and levels_below :: "FileNode list \<Rightarrow> FileNode list \<Rightarrow> (FileNode list \<times> FileNode list) list"
  and levels_node :: "FileNode list \<Rightarrow> FileNode \<Rightarrow> (FileNode list \<times> FileNode list) list" where
  "levels anc nodes = (anc, nodes) # levels_below anc nodes"
| "levels_below anc [] = []"
| "levels_below anc (node # nodes) = levels_node anc node @ levels_below anc nodes"
| "levels_node anc (FileNode name path type ch tr tc) =
     (case ch of None \<Rightarrow> []
      | Some cs \<Rightarrow> levels (anc @ [FileNode name path type ch tr tc]) cs)"

text \<open>The path prefix of a level: the path of the parent, or the prefix the scan started with.\<close>

definition prefix_of :: "string \<Rightarrow> FileNode list \<Rightarrow> string" where
  "prefix_of basePath anc = (if anc = [] then basePath else node_path (last anc))"

text \<open>Segments joined with a separator.\<close>

fun join_segments :: "char \<Rightarrow> string list \<Rightarrow> string" where
  "join_segments sep [] = []"
| "join_segments sep [s] = s"
| "join_segments sep (s # t # ss) = s @ sep # join_segments sep (t # ss)"

text \<open>A file system tree in which no entry has the empty name.\<close>

fun named :: "fsobject \<Rightarrow> bool" where
  "named FsFile = True"
| "named FsUnreadable = True"
| "named (FsDir items) = (\<forall>(name, obj) \<in> set items. name \<noteq> [] \<and> named obj)"

text \<open>
  The objects found by following a chain of entry names down from a directory (a list,
  since nothing in the type keeps two entries from having one name).
\<close>

fun dirs_at :: "fsobject \<Rightarrow> string list \<Rightarrow> fsobject list" where
  "dirs_at d [] = [d]"
| "dirs_at (FsDir items) (n # ns) =
     concat (map (\<lambda>(name, obj). if name = n then dirs_at obj ns else []) items)"
| "dirs_at FsFile (n # ns) = []"
| "dirs_at FsUnreadable (n # ns) = []"



text \<open>
  A comparator is consistent when it orders any two strings one way or the other and
  is transitive, as \<open>localeCompare\<close> is.
\<close>

definition consistent :: "(string \<Rightarrow> string \<Rightarrow> int) \<Rightarrow> bool" where
  "consistent lc =
     ((\<forall>a b. lc a b \<le> 0 \<or> lc b a \<le> 0) \<and> (\<forall>a b c. lc a b \<le> 0 \<and> lc b c \<le> 0 \<longrightarrow> lc a c \<le> 0))"


text \<open>
  Two listings of one directory tree: at every level the same entry names, none twice,
  in any order, and under each name the same kind of object.
\<close>

fun same_dir :: "fsobject \<Rightarrow> fsobject \<Rightarrow> bool" where
  "same_dir FsFile d' = (d' = FsFile)"
| "same_dir FsUnreadable d' = (d' = FsUnreadable)"
| "same_dir (FsDir items) d' =
     (case d' of
        FsDir items' \<Rightarrow>
          distinct (map fst items) \<and> distinct (map fst items') \<and>
          set (map fst items) = set (map fst items') \<and>
          (\<forall>(name, obj) \<in> set items. \<forall>(name', obj') \<in> set items'.
             name = name' \<longrightarrow> same_dir obj obj')
      | _ \<Rightarrow> False)"

text \<open>
  The file system in which every directory that cannot be listed is replaced by an empty
  directory.
\<close>

fun heal :: "fsobject \<Rightarrow> fsobject" where
  "heal FsFile = FsFile"
| "heal FsUnreadable = FsDir []"
| "heal (FsDir items) = FsDir (map (\<lambda>(name, obj). (name, heal obj)) items)"

definition heal_item :: "item \<Rightarrow> item" where
  "heal_item it = it\<lparr>item_target := heal (item_target it)\<rparr>"

subsection \<open>A POSIX host\<close>




fun codeunit_compare :: "string \<Rightarrow> string \<Rightarrow> int" where
  "codeunit_compare [] [] = 0"
| "codeunit_compare [] (y # ys) = - 1"
| "codeunit_compare (x # xs) [] = 1"
| "codeunit_compare (x # xs) (y # ys) =
     (if (of_char x :: nat) < of_char y then - 1
      else if (of_char y :: nat) < of_char x then 1
      else codeunit_compare xs ys)"

text \<open>A comparator that ignores the case of letters.\<close>

definition caseless_compare :: "string \<Rightarrow> string \<Rightarrow> int" where
  "caseless_compare a b = codeunit_compare (map toUpperCase a) (map toUpperCase b)"



subsection \<open>Examples\<close>

text \<open>A directory for the examples.\<close>

definition example_dir :: fsobject where
  "example_dir =
     FsDir [(''src'', FsDir [(''b.ts'', FsFile), (''a.ts'', FsFile), (''lib'', FsDir []), (''.cache'', FsDir [])]),
            (''node_modules'', FsDir [(''x'', FsFile)]),
            (''README'', FsFile)]"

definition example_nested :: fsobject where
  "example_nested = FsDir [(''a'', FsDir [(''x'', FsFile), (''y'', FsFile), (''z'', FsFile)])]"




section \<open>Properties of the loop and of the scan\<close>

lemma length_insert_item: "length (insert_item cmp x xs) = Suc (length xs)"
  by (induction xs) auto

lemma length_sort_items: "length (sort_items cmp xs) = length xs"
  by (induction xs) (simp_all add: sort_items_def length_insert_item)

lemma collect_Cons:
  "collect pf basePath ((name, obj) # items) =
     (if skipped name then collect pf basePath items
      else \<lparr>item_name = name,
            item_path = (if basePath \<noteq> [] then path_join pf basePath name else name),
            item_type = (if isDirectory obj then Folder else File), item_target = obj\<rparr> #
           collect pf basePath items)"
  by (simp add: skipped_def Let_def)

lemma length_collect: "length (collect pf basePath items) = length (filtered items)"
proof (induction items)
  case Nil
  show ?case by (simp add: filtered_def)
next
  case (Cons x items)
  then show ?case by (cases x) (simp add: collect_Cons filtered_def del: collect.simps)
qed

lemma scanDirectory_FsDir:
  "scanDirectory lc pf (FsDir items) basePath L =
     Inr (process_items (\<lambda>d b. scanDirectory lc pf d b L) basePath L
            (length (filtered items))
            (sort_items (compareItems lc) (collect pf basePath items)) [])"
  by (subst scanDirectory.simps) (simp add: Let_def length_sort_items length_collect)

lemma scanDirectory_FsUnreadable: "scanDirectory lc pf FsUnreadable basePath L = Inr []"
  by (subst scanDirectory.simps) simp

lemma scanDirectory_FsFile: "scanDirectory lc pf FsFile basePath L = Inr []"
  by (subst scanDirectory.simps) simp


lemma emit_not_sentinel: "\<not> is_sentinel (emit scan it)"
  by (simp add: emit_def is_sentinel_def split: sum.splits)

lemma sentinel_is_sentinel: "is_sentinel (sentinel basePath n)"
  by (simp add: sentinel_def is_sentinel_def)

lemma process_items_trunc:
  "L \<le> int (length nodes) + 1 \<Longrightarrow> its \<noteq> [] \<Longrightarrow>
   process_items scan basePath L n (it # its) nodes = nodes @ [sentinel basePath n]"
  by (simp add: Let_def)

lemma process_items_step:
  "\<not> (L \<le> int (length nodes) + 1 \<and> its \<noteq> []) \<Longrightarrow>
   process_items scan basePath L n (it # its) nodes =
   process_items scan basePath L n its (nodes @ [emit scan it])"
  by (auto simp add: Let_def)


text \<open>Whatever the limit, the loop emits a prefix of the items and at most one sentinel.\<close>

lemma process_items_shape:
  "\<exists>k s. process_items scan basePath L n its nodes = nodes @ map (emit scan) (take k its) @ s \<and>
     (s = [] \<or> s = [sentinel basePath n])"
proof (induction its arbitrary: nodes)
  case Nil
  then show ?case by simp
next
  case (Cons it its)
  show ?case
  proof (cases "L \<le> int (length nodes) + 1 \<and> its \<noteq> []")
    case True
    then have "process_items scan basePath L n (it # its) nodes =
        nodes @ map (emit scan) (take 0 (it # its)) @ [sentinel basePath n]"
      by (simp add: process_items_trunc)
    then show ?thesis by blast
  next
    case False
    from Cons.IH [of "nodes @ [emit scan it]"] obtain k s where
      "process_items scan basePath L n its (nodes @ [emit scan it]) =
         (nodes @ [emit scan it]) @ map (emit scan) (take k its) @ s"
      "s = [] \<or> s = [sentinel basePath n]" by blast
    then have "process_items scan basePath L n (it # its) nodes =
        nodes @ map (emit scan) (take (Suc k) (it # its)) @ s \<and> (s = [] \<or> s = [sentinel basePath n])"
      unfolding process_items_step [OF False] by simp
    then show ?thesis by blast
  qed
qed

lemma scanDirectory_shape:
  "\<exists>k s. scanDirectory lc pf (FsDir items) basePath L =
       Inr (map (emit (\<lambda>d b. scanDirectory lc pf d b L))
              (take k (sort_items (compareItems lc) (collect pf basePath items))) @ s) \<and>
     (s = [] \<or> s = [sentinel basePath (length (filtered items))])"
  using process_items_shape [of "\<lambda>d b. scanDirectory lc pf d b L" basePath L "length (filtered items)"
      "sort_items (compareItems lc) (collect pf basePath items)" "[]"]
  by (simp add: scanDirectory_FsDir)

section \<open>The applied limit: properties\<close>

lemma limit_range: "1 \<le> limit v \<and> limit v \<le> 100"
  by (simp add: limit_def)

lemma limit_absent: "limit JUndefined = 20"
  by code_simp

lemma limit_examples:
  "limit (JInt (- 5)) = 1" "limit (JStr ''abc'') = 20" "limit (JInt 500) = 100"
  "limit (JInt 7) = 7" "limit (JStr '' 0x1F'') = 31" "limit JNull = 20"
  by code_simp+

section \<open>Every sibling sequence is a scan\<close>

lemma dirs_at_entry:
  "(name, obj) \<in> set items \<Longrightarrow> d \<in> set (dirs_at obj ns) \<Longrightarrow> d \<in> set (dirs_at (FsDir items) (name # ns))"
  by auto

lemma named_dirs_at: "named dir \<Longrightarrow> d \<in> set (dirs_at dir ns) \<Longrightarrow> named d"
  by (induction dir ns rule: dirs_at.induct) (auto split: if_splits)

lemma levels_prefix:
  "(anc', sibs) \<in> set (levels anc nodes) \<Longrightarrow> \<exists>rest. anc' = anc @ rest"
  "(anc', sibs) \<in> set (levels_below anc nodes) \<Longrightarrow> \<exists>rest. anc' = anc @ rest \<and> rest \<noteq> []"
  "(anc', sibs) \<in> set (levels_node anc node) \<Longrightarrow> \<exists>rest. anc' = anc @ rest \<and> rest \<noteq> []"
proof (induction anc nodes and anc nodes and anc node arbitrary: anc' sibs and anc' sibs and anc' sibs
    rule: levels_levels_below_levels_node.induct)
  case (1 anc nodes)
  then show ?case by fastforce
next
  case (2 anc)
  then show ?case by simp
next
  case (3 anc node nodes)
  then show ?case by auto
next
  case (4 anc name path type ch tr tc)
  then show ?case by (fastforce split: option.splits)
qed

lemma levels_below_iff:
  "(anc', sibs) \<in> set (levels_below anc nodes) \<longleftrightarrow>
   (\<exists>node \<in> set nodes. (anc', sibs) \<in> set (levels_node anc node))"
  by (induction nodes) auto

lemma levels_node_iff:
  "(anc', sibs) \<in> set (levels_node anc node) \<longleftrightarrow>
   (\<exists>cs. node_children node = Some cs \<and> (anc', sibs) \<in> set (levels (anc @ [node]) cs))"
  by (cases node) (auto split: option.splits)


lemma collect_item_conj:
  "it \<in> set (collect pf basePath items) \<Longrightarrow>
   (item_name it, item_target it) \<in> set items \<and> \<not> skipped (item_name it) \<and>
   item_path it = (if basePath \<noteq> [] then path_join pf basePath (item_name it) else item_name it) \<and>
   item_type it = (if isDirectory (item_target it) then Folder else File)"
proof (induction items)
  case Nil
  then show ?case by simp
next
  case (Cons x items)
  obtain name obj where x: "x = (name, obj)" by (cases x)
  show ?case
  proof (cases "skipped name")
    case True
    with Cons x show ?thesis by (simp add: collect_Cons del: collect.simps)
  next
    case False
    with Cons x show ?thesis by (auto simp add: collect_Cons simp del: collect.simps)
  qed
qed

lemma collect_item:
  assumes "it \<in> set (collect pf basePath items)"
  shows "(item_name it, item_target it) \<in> set items" "\<not> skipped (item_name it)"
    "item_path it = (if basePath \<noteq> [] then path_join pf basePath (item_name it) else item_name it)"
    "item_type it = (if isDirectory (item_target it) then Folder else File)"
  using collect_item_conj [OF assms] by blast+

lemma emit_fields [simp]:
  "node_name (emit scan it) = item_name it"
  "node_path (emit scan it) = item_path it"
  "node_type (emit scan it) = item_type it"
  "node_truncated (emit scan it) = None"
  "node_totalCount (emit scan it) = None"
  by (cases "item_type it"; simp add: emit_def split: sum.splits)+

lemma emit_children:
  "node_children (emit scan it) = Some cs \<Longrightarrow>
   item_type it = Folder \<and> scan (item_target it) (item_path it) = Inr cs \<and> cs \<noteq> []"
  by (auto simp: emit_def split: sum.splits if_splits)

lemma scan_node_cases:
  assumes "scanDirectory lc pf dir basePath L = Inr nodes" "node \<in> set nodes"
  shows "\<exists>items. dir = FsDir items \<and>
     (node = sentinel basePath (length (filtered items)) \<or>
      (\<exists>it \<in> set (collect pf basePath items). node = emit (\<lambda>d b. scanDirectory lc pf d b L) it))"
proof (cases dir)
  case (FsDir items)
  from scanDirectory_shape [of lc pf items basePath L] assms FsDir
  obtain k s where
    "nodes = map (emit (\<lambda>d b. scanDirectory lc pf d b L))
       (take k (sort_items (compareItems lc) (collect pf basePath items))) @ s"
    "s = [] \<or> s = [sentinel basePath (length (filtered items))]"
    by auto
  with assms(2) have "node = sentinel basePath (length (filtered items)) \<or>
      (\<exists>it \<in> set (take k (sort_items (compareItems lc) (collect pf basePath items))).
         node = emit (\<lambda>d b. scanDirectory lc pf d b L) it)"
    by auto
  then have "node = sentinel basePath (length (filtered items)) \<or>
      (\<exists>it \<in> set (collect pf basePath items). node = emit (\<lambda>d b. scanDirectory lc pf d b L) it)"
    using set_sort_items [of "compareItems lc" "collect pf basePath items"] in_set_takeD
    by fastforce
  with FsDir show ?thesis by simp
next
  case FsFile
  with assms show ?thesis by (simp add: scanDirectory_FsFile)
next
  case FsUnreadable
  with assms show ?thesis by (simp add: scanDirectory_FsUnreadable)
qed

lemma join_segments_snoc:
  "xs \<noteq> [] \<Longrightarrow> join_segments sep (xs @ [s]) = join_segments sep xs @ sep # s"
  by (induction sep xs rule: join_segments.induct) auto

lemma named_entry: "named (FsDir items) \<Longrightarrow> (name, obj) \<in> set items \<Longrightarrow> name \<noteq> [] \<and> named obj"
  by auto

lemma levels_scan_gen:
  "scanDirectory lc pf dir basePath L = Inr nodes \<Longrightarrow>
   (anc @ rest, sibs) \<in> set (levels anc nodes) \<Longrightarrow>
   \<exists>dir' b'. dir' \<in> set (dirs_at dir (map node_name rest)) \<and>
     scanDirectory lc pf dir' b' L = Inr sibs \<and>
     (rest = [] \<longrightarrow> b' = basePath) \<and> (rest \<noteq> [] \<longrightarrow> b' = node_path (last rest)) \<and>
     (named dir \<longrightarrow> rest \<noteq> [] \<longrightarrow> b' \<noteq> []) \<and>
     (named dir \<longrightarrow> basePath = join_segments (path_sep pf) (map node_name anc) \<longrightarrow>
      (anc \<noteq> [] \<longrightarrow> basePath \<noteq> []) \<longrightarrow>
      b' = join_segments (path_sep pf) (map node_name (anc @ rest)))"
proof (induction lc pf dir basePath L arbitrary: nodes anc rest sibs rule: scanDirectory.induct)
  case (1 lc pf dir basePath L)
  let ?scan = "\<lambda>d b. scanDirectory lc pf d b L"
  let ?J = "\<lambda>a. join_segments (path_sep pf) (map node_name a)"
  from "1.prems"(2) consider (top) "rest = []" "sibs = nodes"
    | (below) "(anc @ rest, sibs) \<in> set (levels_below anc nodes)"
    by auto
  then show ?case
  proof cases
    case top
    with "1.prems"(1) show ?thesis by auto
  next
    case below
    then obtain node where "node \<in> set nodes" "(anc @ rest, sibs) \<in> set (levels_node anc node)"
      using levels_below_iff by blast
    then obtain cs where node: "node \<in> set nodes" "node_children node = Some cs"
      and lv: "(anc @ rest, sibs) \<in> set (levels (anc @ [node]) cs)"
      using levels_node_iff by blast
    from levels_prefix(1) [OF lv] obtain rest' where rest: "rest = node # rest'"
      by auto
    from scan_node_cases [OF "1.prems"(1) node(1)] node(2) obtain items it where
      dir: "dir = FsDir items" and it: "it \<in> set (collect pf basePath items)"
      and emit: "node = emit ?scan it"
      by (auto simp: sentinel_def)
    from emit node(2) have sub: "scanDirectory lc pf (item_target it) (item_path it) L = Inr cs"
      using emit_children by blast
    note ci = collect_item [OF it]
    have it': "it \<in> set (sort_items (compareItems lc) (collect pf basePath items))"
      using it by (simp add: set_sort_items)
    from lv rest have lv': "((anc @ [node]) @ rest', sibs) \<in> set (levels (anc @ [node]) cs)"
      by simp
    from dir have rd: "readdir dir = Inr items" by simp
    from "1.IH" [OF rd refl it' sub lv']
    obtain dir' b' where d: "dir' \<in> set (dirs_at (item_target it) (map node_name rest'))"
      and s: "scanDirectory lc pf dir' b' L = Inr sibs"
      and b1: "rest' = [] \<longrightarrow> b' = item_path it"
      and b2: "rest' \<noteq> [] \<longrightarrow> b' = node_path (last rest')"
      and b3: "named (item_target it) \<longrightarrow> rest' \<noteq> [] \<longrightarrow> b' \<noteq> []"
      and b4: "named (item_target it) \<longrightarrow> item_path it = ?J (anc @ [node]) \<longrightarrow>
          ((anc @ [node]) \<noteq> [] \<longrightarrow> item_path it \<noteq> []) \<longrightarrow> b' = ?J ((anc @ [node]) @ rest')"
      by blast
    have name: "node_name node = item_name it" and path: "node_path node = item_path it"
      by (simp_all add: emit)
    from d ci(1) have d': "dir' \<in> set (dirs_at dir (map node_name rest))"
      unfolding dir rest using dirs_at_entry [of "item_name it" "item_target it" items dir'] name
      by simp
    have p2: "b' = node_path (last rest)"
      using b1 b2 rest path by simp
    have nm: "named dir \<Longrightarrow> item_name it \<noteq> [] \<and> named (item_target it)"
      using named_entry ci(1) dir by blast
    have ne: "named dir \<Longrightarrow> item_path it \<noteq> []"
      using nm ci(3) by (auto simp: path_join_def)
    have p3: "named dir \<longrightarrow> b' \<noteq> []"
      using b1 b3 nm ne by (cases "rest' = []") auto
    have p4: "b' = ?J (anc @ rest)"
      if n: "named dir" and bp: "basePath = ?J anc" and ae: "anc \<noteq> [] \<longrightarrow> basePath \<noteq> []"
    proof -
      have "item_path it = ?J (anc @ [node])"
      proof (cases "anc = []")
        case True
        with bp ci(3) name show ?thesis by simp
      next
        case False
        with ae nm [OF n] ci(3) have "item_path it = basePath @ path_sep pf # item_name it"
          by (simp add: path_join_def)
        with bp False name show ?thesis by (simp add: join_segments_snoc)
      qed
      with b4 nm [OF n] ne [OF n] rest show ?thesis by simp
    qed
    from d' s p2 p3 p4 rest show ?thesis by blast
  qed
qed


text \<open>
  Every sibling sequence of the result is the scan of the directory found by following the
  names of its ancestors, under the prefix of that level.
\<close>

lemma levels_scan:
  assumes "scanDirectory lc pf dir basePath L = Inr nodes" "(anc, sibs) \<in> set (levels [] nodes)"
  shows "\<exists>dir'. dir' \<in> set (dirs_at dir (map node_name anc)) \<and>
     scanDirectory lc pf dir' (prefix_of basePath anc) L = Inr sibs"
proof -
  from assms(2) have "([] @ anc, sibs) \<in> set (levels [] nodes)" by simp
  from levels_scan_gen [OF assms(1) this] show ?thesis
    by (auto simp: prefix_of_def)
qed

lemma levels_scan_named:
  assumes "scanDirectory lc pf dir [] L = Inr nodes" "(anc, sibs) \<in> set (levels [] nodes)"
    "named dir"
  shows "\<exists>dir'. dir' \<in> set (dirs_at dir (map node_name anc)) \<and> named dir' \<and>
     scanDirectory lc pf dir' (prefix_of [] anc) L = Inr sibs \<and>
     (anc \<noteq> [] \<longrightarrow> prefix_of [] anc \<noteq> []) \<and>
     prefix_of [] anc = join_segments (path_sep pf) (map node_name anc)"
proof -
  from assms(2) have "([] @ anc, sibs) \<in> set (levels [] nodes)" by simp
  from levels_scan_gen [OF assms(1) this] assms(3) obtain dir' b' where
    d: "dir' \<in> set (dirs_at dir (map node_name anc))"
    and s: "scanDirectory lc pf dir' b' L = Inr sibs"
    and b: "anc = [] \<longrightarrow> b' = []" "anc \<noteq> [] \<longrightarrow> b' = node_path (last anc)"
      "anc \<noteq> [] \<longrightarrow> b' \<noteq> []" "b' = join_segments (path_sep pf) (map node_name anc)"
    by auto
  from b(1,2) have "b' = prefix_of [] anc" by (simp add: prefix_of_def)
  with d s b(3,4) named_dirs_at [OF assms(3) d] show ?thesis by auto
qed

lemma level_node_cases:
  assumes "scanDirectory lc pf dir basePath L = Inr nodes" "(anc, sibs) \<in> set (levels [] nodes)"
    "node \<in> set sibs"
  shows "\<exists>items. FsDir items \<in> set (dirs_at dir (map node_name anc)) \<and>
     (node = sentinel (prefix_of basePath anc) (length (filtered items)) \<or>
      (\<exists>it \<in> set (collect pf (prefix_of basePath anc) items).
         node = emit (\<lambda>d b. scanDirectory lc pf d b L) it))"
proof -
  from levels_scan [OF assms(1,2)] obtain dir' where
    d: "dir' \<in> set (dirs_at dir (map node_name anc))"
    and s: "scanDirectory lc pf dir' (prefix_of basePath anc) L = Inr sibs"
    by blast
  from scan_node_cases [OF s assms(3)] d show ?thesis by blast
qed


section \<open>An example scan\<close>

lemma example_scan:
  "scanDirectory codeunit_compare Posix example_dir [] 2 =
   Inr [FileNode ''src'' ''src'' Folder
          (Some [FileNode ''lib'' ''src/lib'' Folder None None None,
                 FileNode ''...'' ''src...'' Folder None (Some True) (Some 3)]) None None,
        FileNode ''README'' ''README'' File None None None]"
  by code_simp

section \<open>The sort\<close>









lemma codeunit_compare_total: "codeunit_compare a b \<le> 0 \<or> codeunit_compare b a \<le> 0"
  by (induction a b rule: codeunit_compare.induct) auto

lemma codeunit_compare_trans:
  "codeunit_compare a b \<le> 0 \<Longrightarrow> codeunit_compare b c \<le> 0 \<Longrightarrow> codeunit_compare a c \<le> 0"
proof (induction a b arbitrary: c rule: codeunit_compare.induct)
  case 1
  then show ?case by simp
next
  case (2 y ys)
  then show ?case by (cases c) simp_all
next
  case (3 x xs)
  then show ?case by simp
next
  case (4 x xs y ys)
  show ?case
  proof (cases c)
    case Nil
    with "4.prems" show ?thesis by simp
  next
    case (Cons z zs)
    with "4.prems" "4.IH" [of zs] show ?thesis
      by (auto split: if_splits)
  qed
qed


section \<open>Directories that cannot be listed\<close>

lemma isDirectory_heal [simp]: "isDirectory (heal obj) = isDirectory obj"
  by (cases obj) simp_all




lemma compareItems_heal [simp]: "compareItems lc (heal_item a) (heal_item b) = compareItems lc a b"
  by (simp add: compareItems_def heal_item_def)









section \<open>Two listings of one directory\<close>
















lemma consistent_caseless_compare: "consistent caseless_compare"
  unfolding consistent_def caseless_compare_def
  using codeunit_compare_total codeunit_compare_trans by blast


text \<open>
  With a comparator that ties two names, the order of the result follows the order of
  the listing.
\<close>

lemma listing_order_with_ties:
  "consistent caseless_compare \<and>
   same_dir (FsDir [(''a'', FsFile), (''A'', FsFile)]) (FsDir [(''A'', FsFile), (''a'', FsFile)]) \<and>
   scanDirectory caseless_compare Posix (FsDir [(''a'', FsFile), (''A'', FsFile)]) [] 20 =
     Inr [FileNode ''a'' ''a'' File None None None, FileNode ''A'' ''A'' File None None None] \<and>
   scanDirectory caseless_compare Posix (FsDir [(''A'', FsFile), (''a'', FsFile)]) [] 20 =
     Inr [FileNode ''A'' ''A'' File None None None, FileNode ''a'' ''a'' File None None None]"
proof -
  have "same_dir (FsDir [(''a'', FsFile), (''A'', FsFile)]) (FsDir [(''A'', FsFile), (''a'', FsFile)])"
    by code_simp
  moreover have "scanDirectory caseless_compare Posix (FsDir [(''a'', FsFile), (''A'', FsFile)]) [] 20 =
     Inr [FileNode ''a'' ''a'' File None None None, FileNode ''A'' ''A'' File None None None]"
    by code_simp
  moreover have "scanDirectory caseless_compare Posix (FsDir [(''A'', FsFile), (''a'', FsFile)]) [] 20 =
     Inr [FileNode ''A'' ''A'' File None None None, FileNode ''a'' ''a'' File None None None]"
    by code_simp
  ultimately show ?thesis using consistent_caseless_compare by blast
qed

section \<open>The claims\<close>



text \<open>
  C2. The applied limit for the input \<open>0\<close>: \<open>parseInt\<close> yields \<open>0\<close>, which is falsy, so
  \<open>||\<close> replaces it by the default 20 before the clamp is applied; the limit is 20, not 1.
\<close>

theorem limit_zero: "limit (JInt 0) = 20"
  by code_simp

text \<open>
  C3 (amended). In the returned tree, at every depth, no node other than a truncation
  sentinel has a name that begins with \<open>.\<close> or equals \<open>node_modules\<close> or \<open>.git\<close>
  (the sentinel itself is named \<open>...\<close>); and the \<open>totalCount\<close> of every sentinel is
  the number of entries of its directory, the one reached by the names of its
  ancestors, that are not skipped.
\<close>

theorem entries_filtered:
  assumes "scanDirectory lc pf dir basePath L = Inr nodes" "(anc, sibs) \<in> set (levels [] nodes)"
    "node \<in> set sibs"
  shows "(\<not> is_sentinel node \<longrightarrow>
          \<not> startsWith (node_name node) ''.'' \<and> node_name node \<noteq> ''node_modules'' \<and>
          node_name node \<noteq> ''.git'') \<and>
         (is_sentinel node \<longrightarrow>
          (\<exists>items. FsDir items \<in> set (dirs_at dir (map node_name anc)) \<and>
             node_totalCount node = Some (length (filter (\<lambda>(name, obj). \<not> skipped name) items))))"
proof -
  from level_node_cases [OF assms] obtain items where
    d: "FsDir items \<in> set (dirs_at dir (map node_name anc))"
    and c: "node = sentinel (prefix_of basePath anc) (length (filtered items)) \<or>
      (\<exists>it \<in> set (collect pf (prefix_of basePath anc) items).
         node = emit (\<lambda>d b. scanDirectory lc pf d b L) it)"
    by blast
  from c show ?thesis
  proof
    assume "node = sentinel (prefix_of basePath anc) (length (filtered items))"
    with d show ?thesis
      by (auto simp: sentinel_def is_sentinel_def filtered_def)
  next
    assume "\<exists>it \<in> set (collect pf (prefix_of basePath anc) items).
         node = emit (\<lambda>d b. scanDirectory lc pf d b L) it"
    then obtain it where "it \<in> set (collect pf (prefix_of basePath anc) items)"
      and n: "node = emit (\<lambda>d b. scanDirectory lc pf d b L) it"
      by blast
    from collect_item(2) [OF this(1)] n show ?thesis
      by (simp add: skipped_def emit_not_sentinel)
  qed
qed

theorem entries_filtered_witness:
  "scanDirectory codeunit_compare Posix example_dir [] 2 =
     Inr [FileNode ''src'' ''src'' Folder
            (Some [FileNode ''lib'' ''src/lib'' Folder None None None,
                   FileNode ''...'' ''src...'' Folder None (Some True) (Some 3)]) None None,
          FileNode ''README'' ''README'' File None None None] \<and>
   \<not> is_sentinel (FileNode ''lib'' ''src/lib'' Folder None None None) \<and>
   \<not> startsWith ''lib'' ''.'' \<and> ''lib'' \<noteq> ''node_modules'' \<and> ''lib'' \<noteq> ''.git'' \<and>
   is_sentinel (FileNode ''...'' ''src...'' Folder None (Some True) (Some 3)) \<and>
   dirs_at example_dir [''src''] =
     [FsDir [(''b.ts'', FsFile), (''a.ts'', FsFile), (''lib'', FsDir []), (''.cache'', FsDir [])]] \<and>
   Some (3 :: nat) = Some (length (filter (\<lambda>(name, obj). \<not> skipped name)
     [(''b.ts'', FsFile), (''a.ts'', FsFile), (''lib'', FsDir []), (''.cache'', FsDir [])]))"
proof -
  let ?s = "FileNode ''...'' ''src...'' Folder None (Some True) (Some 3)"
  let ?l = "FileNode ''lib'' ''src/lib'' Folder None None None"
  let ?sibs = "[?l, ?s]"
  let ?src = "FileNode ''src'' ''src'' Folder (Some ?sibs) None None"
  have lv: "([?src], ?sibs) \<in> set (levels [] [?src, FileNode ''README'' ''README'' File None None None])"
    by simp
  have m: "?l \<in> set ?sibs" and m': "?s \<in> set ?sibs" by simp_all
  have t: "\<not> is_sentinel ?l" and t': "is_sentinel ?s" by (simp_all add: is_sentinel_def)
  have d: "dirs_at example_dir [''src''] =
     [FsDir [(''b.ts'', FsFile), (''a.ts'', FsFile), (''lib'', FsDir []), (''.cache'', FsDir [])]]"
    by code_simp
  from entries_filtered [OF example_scan lv m'] t' d
  have c: "Some (3 :: nat) = Some (length (filter (\<lambda>(name, obj). \<not> skipped name)
     [(''b.ts'', FsFile), (''a.ts'', FsFile), (''lib'', FsDir []), (''.cache'', FsDir [])]))"
    by auto
  from entries_filtered [OF example_scan lv m] example_scan t t' d c show ?thesis
    by simp
qed

text \<open>
  The claim as stated fails where a level is truncated: the sentinel is a node of the
  tree and its name begins with \<open>.\<close>.
\<close>

theorem sentinel_name_counterexample:
  "scanDirectory codeunit_compare Posix (FsDir [(''a'', FsFile), (''b'', FsFile)]) [] 1 =
     Inr [FileNode ''...'' ''...'' Folder None (Some True) (Some 2)] \<and>
   startsWith (node_name (FileNode ''...'' ''...'' Folder None (Some True) (Some 2))) ''.''"
  by code_simp




text \<open>
  C5 (amended). In the tree returned for a scan root (whose entries all have a name), the
  path of every node that is not a sentinel is its name at the top level, and below it
  the path of its parent, the path separator of the platform and its name; the path of a
  sentinel is \<open>...\<close> at the top level, which is its name, and below it the path of its
  parent followed by \<open>...\<close> with no separator.
\<close>

theorem paths_from_parent:
  assumes "scanDirectory lc pf dir [] L = Inr nodes" "named dir"
    "(anc, sibs) \<in> set (levels [] nodes)" "node \<in> set sibs"
  shows "(\<not> is_sentinel node \<longrightarrow>
          node_path node =
            (if anc = [] then node_name node
             else node_path (last anc) @ path_sep pf # node_name node)) \<and>
         (is_sentinel node \<longrightarrow>
          node_name node = ''...'' \<and>
          node_path node = (if anc = [] then ''...'' else node_path (last anc) @ ''...''))"
proof -
  from levels_scan_named [OF assms(1,3,2)] obtain dir' where
    d: "named dir'" and s: "scanDirectory lc pf dir' (prefix_of [] anc) L = Inr sibs"
    and ne: "anc \<noteq> [] \<longrightarrow> prefix_of [] anc \<noteq> []"
    by blast
  from scan_node_cases [OF s assms(4)] obtain items where
    dir': "dir' = FsDir items"
    and c: "node = sentinel (prefix_of [] anc) (length (filtered items)) \<or>
      (\<exists>it \<in> set (collect pf (prefix_of [] anc) items).
         node = emit (\<lambda>d b. scanDirectory lc pf d b L) it)"
    by blast
  from c show ?thesis
  proof
    assume "node = sentinel (prefix_of [] anc) (length (filtered items))"
    then show ?thesis
      by (simp add: sentinel_def is_sentinel_def prefix_of_def)
  next
    assume "\<exists>it \<in> set (collect pf (prefix_of [] anc) items).
         node = emit (\<lambda>d b. scanDirectory lc pf d b L) it"
    then obtain it where it: "it \<in> set (collect pf (prefix_of [] anc) items)"
      and n: "node = emit (\<lambda>d b. scanDirectory lc pf d b L) it"
      by blast
    from collect_item(1) [OF it] d dir' have "item_name it \<noteq> []"
      using named_entry by blast
    with collect_item(3) [OF it] ne n show ?thesis
      by (auto simp: emit_not_sentinel prefix_of_def path_join_def)
  qed
qed

theorem paths_from_parent_witness:
  "scanDirectory codeunit_compare Posix example_dir [] 2 =
     Inr [FileNode ''src'' ''src'' Folder
            (Some [FileNode ''lib'' ''src/lib'' Folder None None None,
                   FileNode ''...'' ''src...'' Folder None (Some True) (Some 3)]) None None,
          FileNode ''README'' ''README'' File None None None] \<and>
   named example_dir \<and>
   node_path (FileNode ''lib'' ''src/lib'' Folder None None None) = ''src'' @ CHR ''/'' # ''lib'' \<and>
   node_path (FileNode ''...'' ''src...'' Folder None (Some True) (Some 3)) = ''src'' @ ''...'' \<and>
   node_path (FileNode ''README'' ''README'' File None None None) = ''README''"
proof -
  let ?s = "FileNode ''...'' ''src...'' Folder None (Some True) (Some 3)"
  let ?l = "FileNode ''lib'' ''src/lib'' Folder None None None"
  let ?r = "FileNode ''README'' ''README'' File None None None"
  let ?sibs = "[?l, ?s]"
  let ?src = "FileNode ''src'' ''src'' Folder (Some ?sibs) None None"
  have lv: "([?src], ?sibs) \<in> set (levels [] [?src, ?r])"
    and lv0: "([], [?src, ?r]) \<in> set (levels [] [?src, ?r])"
    by simp_all
  have m: "?l \<in> set ?sibs" "?s \<in> set ?sibs" "?r \<in> set [?src, ?r]" by simp_all
  have t: "\<not> is_sentinel ?l" "is_sentinel ?s" "\<not> is_sentinel ?r" by (simp_all add: is_sentinel_def)
  have n: "named example_dir" by (simp add: example_dir_def)
  from paths_from_parent [OF example_scan n lv m(1)] paths_from_parent [OF example_scan n lv m(2)]
    paths_from_parent [OF example_scan n lv0 m(3)] example_scan n t
  show ?thesis by simp
qed

text \<open>
  The claim as stated fails for a sentinel below the top level: its path is not the join
  of the path of its parent with its name.
\<close>

theorem sentinel_path_counterexample:
  "scanDirectory codeunit_compare Posix example_nested [] 2 =
     Inr [FileNode ''a'' ''a'' Folder
            (Some [FileNode ''x'' ''a/x'' File None None None,
                   FileNode ''...'' ''a...'' Folder None (Some True) (Some 3)]) None None] \<and>
   node_path (FileNode ''...'' ''a...'' Folder None (Some True) (Some 3)) \<noteq>
     path_join Posix (node_path (FileNode ''a'' ''a'' Folder
            (Some [FileNode ''x'' ''a/x'' File None None None,
                   FileNode ''...'' ''a...'' Folder None (Some True) (Some 3)]) None None))
       (node_name (FileNode ''...'' ''a...'' Folder None (Some True) (Some 3)))"
  by code_simp

text \<open>
  C6 (amended). In the tree returned for a scan root (whose entries all have a name), the
  path of every node that is not a sentinel consists of the names from the top level down
  to the node, joined with the path separator of the host platform: a forward slash on a
  POSIX host, a backslash on Windows.
\<close>

theorem paths_from_root:
  assumes "scanDirectory lc pf dir [] L = Inr nodes" "named dir"
    "(anc, sibs) \<in> set (levels [] nodes)" "node \<in> set sibs" "\<not> is_sentinel node"
  shows "node_path node = join_segments (path_sep pf) (map node_name anc @ [node_name node]) \<and>
     path_sep Posix = CHR ''/'' \<and> path_sep Win32 = CHR 0x5C"
proof -
  from levels_scan_named [OF assms(1,3,2)] obtain dir' where
    d: "named dir'" and s: "scanDirectory lc pf dir' (prefix_of [] anc) L = Inr sibs"
    and ne: "anc \<noteq> [] \<longrightarrow> prefix_of [] anc \<noteq> []"
    and j: "prefix_of [] anc = join_segments (path_sep pf) (map node_name anc)"
    by blast
  from scan_node_cases [OF s assms(4)] assms(5) obtain items it where
    dir': "dir' = FsDir items"
    and it: "it \<in> set (collect pf (prefix_of [] anc) items)"
    and n: "node = emit (\<lambda>d b. scanDirectory lc pf d b L) it"
    using sentinel_is_sentinel by blast
  from collect_item(1) [OF it] d dir' have nm: "item_name it \<noteq> []"
    using named_entry by blast
  have "node_path node = join_segments (path_sep pf) (map node_name anc @ [node_name node])"
  proof (cases "anc = []")
    case True
    with collect_item(3) [OF it] n show ?thesis by (simp add: prefix_of_def)
  next
    case False
    with collect_item(3) [OF it] ne nm
    have "item_path it = prefix_of [] anc @ path_sep pf # item_name it"
      by (simp add: path_join_def)
    with j n False show ?thesis
      using join_segments_snoc [of "map node_name anc" "path_sep pf" "node_name node"] by simp
  qed
  then show ?thesis by simp
qed

theorem paths_from_root_witness:
  "scanDirectory codeunit_compare Posix example_dir [] 2 =
     Inr [FileNode ''src'' ''src'' Folder
            (Some [FileNode ''lib'' ''src/lib'' Folder None None None,
                   FileNode ''...'' ''src...'' Folder None (Some True) (Some 3)]) None None,
          FileNode ''README'' ''README'' File None None None] \<and>
   named example_dir \<and>
   node_path (FileNode ''lib'' ''src/lib'' Folder None None None) =
     join_segments (CHR ''/'') [''src'', ''lib'']"
proof -
  let ?s = "FileNode ''...'' ''src...'' Folder None (Some True) (Some 3)"
  let ?l = "FileNode ''lib'' ''src/lib'' Folder None None None"
  let ?r = "FileNode ''README'' ''README'' File None None None"
  let ?sibs = "[?l, ?s]"
  let ?src = "FileNode ''src'' ''src'' Folder (Some ?sibs) None None"
  have lv: "([?src], ?sibs) \<in> set (levels [] [?src, ?r])"
    by simp
  have m: "?l \<in> set ?sibs" by simp
  have t: "\<not> is_sentinel ?l" by (simp add: is_sentinel_def)
  have n: "named example_dir" by (simp add: example_dir_def)
  from paths_from_root [OF example_scan n lv m t] example_scan n
  show ?thesis by simp
qed

text \<open>
  The claim as stated fails on Windows, where \<open>path.join\<close> joins with a backslash.
\<close>

theorem backslash_path_counterexample:
  "scanDirectory codeunit_compare Win32 (FsDir [(''a'', FsDir [(''x'', FsFile)])]) [] 20 =
     Inr [FileNode ''a'' ''a'' Folder
            (Some [FileNode ''x'' [CHR ''a'', CHR 0x5C, CHR ''x''] File None None None]) None None] \<and>
   node_path (FileNode ''x'' [CHR ''a'', CHR 0x5C, CHR ''x''] File None None None) \<noteq>
     join_segments (CHR ''/'') [''a'', ''x'']"
  by code_simp






text \<open>
  C9. Every truncation sentinel in the returned tree, at any depth, has type \<open>folder\<close> and
  name \<open>...\<close>, carries no \<open>children\<close>, and its path is the prefix of its level (the
  path of its parent, or the prefix the scan started with) followed directly by \<open>...\<close>,
  with no separator in between.
\<close>

theorem sentinel_shape:
  assumes "scanDirectory lc pf dir basePath L = Inr nodes" "(anc, sibs) \<in> set (levels [] nodes)"
    "node \<in> set sibs" "is_sentinel node"
  shows "node_type node = Folder \<and> node_name node = ''...'' \<and> node_children node = None \<and>
     node_path node = prefix_of basePath anc @ ''...''"
proof -
  from level_node_cases [OF assms(1-3)] assms(4) obtain n where
    "node = sentinel (prefix_of basePath anc) n"
    using emit_not_sentinel by blast
  then show ?thesis by (simp add: sentinel_def)
qed

theorem sentinel_shape_witness:
  "scanDirectory codeunit_compare Posix example_dir [] 2 =
     Inr [FileNode ''src'' ''src'' Folder
            (Some [FileNode ''lib'' ''src/lib'' Folder None None None,
                   FileNode ''...'' ''src...'' Folder None (Some True) (Some 3)]) None None,
          FileNode ''README'' ''README'' File None None None] \<and>
   is_sentinel (FileNode ''...'' ''src...'' Folder None (Some True) (Some 3)) \<and>
   node_type (FileNode ''...'' ''src...'' Folder None (Some True) (Some 3)) = Folder \<and>
   node_name (FileNode ''...'' ''src...'' Folder None (Some True) (Some 3)) = ''...'' \<and>
   node_children (FileNode ''...'' ''src...'' Folder None (Some True) (Some 3)) = None \<and>
   node_path (FileNode ''...'' ''src...'' Folder None (Some True) (Some 3)) = ''src'' @ ''...''"
proof -
  let ?s = "FileNode ''...'' ''src...'' Folder None (Some True) (Some 3)"
  let ?sibs = "[FileNode ''lib'' ''src/lib'' Folder None None None, ?s]"
  let ?src = "FileNode ''src'' ''src'' Folder (Some ?sibs) None None"
  have lv: "([?src], ?sibs) \<in> set (levels [] [?src, FileNode ''README'' ''README'' File None None None])"
    by simp
  have m: "?s \<in> set ?sibs" by simp
  have t: "is_sentinel ?s" by (simp add: is_sentinel_def)
  from sentinel_shape [OF example_scan lv m t] example_scan t show ?thesis
    by (simp add: prefix_of_def)
qed



end
